theory Spec2Isabelle
  imports Main "HOL-Library.Word"
begin

section \<open>Differential line code (QPSK, modulus 4)\<close>

text \<open>
  The transmitter instantiates \<^verbatim>\<open>digital.diff_encoder_bb(4)\<close> (Transmission.py, line 38)
  and the receiver \<^verbatim>\<open>digital.diff_decoder_bb(4)\<close> (Receiver.py, line 101). Both blocks
  belong to the signal-processing library; the repository only fixes their modulus.
\<close>

definition QPSK_MODULUS :: int where
  "QPSK_MODULUS = 4"

text \<open>
  Modelled from the spec: the body of the library block \<^verbatim>\<open>diff_encoder_bb\<close> is not in the
  repository. Section 4.1: given the register \<open>s_prev\<close> and the input group \<open>b\<close>, let
  \<open>d = b\<close>, produce \<open>s_cur = (s_prev + d) mod M\<close>, emit \<open>s_cur\<close>, set \<open>s_prev \<leftarrow> s_cur\<close>.
  The result is the emitted group paired with the new register.
\<close>

definition encode :: "int \<Rightarrow> int \<Rightarrow> int \<Rightarrow> int \<times> int" where
  "encode M s_prev b = (let d = b; s_cur = (s_prev + d) mod M in (s_cur, s_cur))"

text \<open>
  Modelled from the spec: the body of the library block \<^verbatim>\<open>diff_decoder_bb\<close> is not in the
  repository. Section 4.1: given the received symbol \<open>s_cur\<close> and the register \<open>s_prev\<close>,
  compute \<open>d = (s_cur - s_prev) mod M\<close>, emit \<open>d\<close>, set \<open>s_prev \<leftarrow> s_cur\<close>.
\<close>

definition decode :: "int \<Rightarrow> int \<Rightarrow> int \<Rightarrow> int \<times> int" where
  "decode M s_prev s_cur = (let d = (s_cur - s_prev) mod M in (d, s_cur))"

text \<open>The register persists across calls: a stream is coded group by group.\<close>

fun encode_stream :: "int \<Rightarrow> int \<Rightarrow> int list \<Rightarrow> int list" where
  "encode_stream M s_prev [] = []"
| "encode_stream M s_prev (b # bs) =
     (case encode M s_prev b of (e, s') \<Rightarrow> e # encode_stream M s' bs)"

fun decode_stream :: "int \<Rightarrow> int \<Rightarrow> int list \<Rightarrow> int list" where
  "decode_stream M s_prev [] = []"
| "decode_stream M s_prev (s # ss) =
     (case decode M s_prev s of (d, s') \<Rightarrow> d # decode_stream M s' ss)"

text \<open>The two instances of the repository: modulus 4, register reset to 0 at stream start.\<close>

definition diff_encoder :: "int list \<Rightarrow> int list" where
  "diff_encoder bs = encode_stream QPSK_MODULUS 0 bs"

definition diff_decoder :: "int list \<Rightarrow> int list" where
  "diff_decoder ss = decode_stream QPSK_MODULUS 0 ss"

text \<open>
  Modelled from the spec: the channel's constant phase rotation of section 4.1,
  \<open>s'_cur = (s_cur + r) mod M\<close>, applied to every symbol.
\<close>

definition rotate_symbols :: "int \<Rightarrow> int \<Rightarrow> int list \<Rightarrow> int list" where
  "rotate_symbols M r ss = map (\<lambda>s. (s + r) mod M) ss"

section \<open>Packet extractor (Receiver.py)\<close>

definition EXTRACT_LEN_BYTES :: int where
  "EXTRACT_LEN_BYTES = 256"

type_synonym byte = "8 word"

text \<open>The attribute \<^verbatim>\<open>self.state\<close> holds one of the two strings 'SEARCHING' and 'COPYING'.\<close>

datatype extraction_state = SEARCHING | COPYING

text \<open>A stream tag: its key and its absolute offset in the input stream.\<close>

record tag_t =
  key :: string
  offset :: nat

definition start_key :: string where
  "start_key = ''packet_start''"

record PacketExtractor =
  packet_len :: int
  state :: extraction_state
  items_to_copy :: int

datatype startup_error = ConfigError

text \<open>
  \<^verbatim>\<open>PacketExtractor.__init__\<close> (lines 14-21) stores its argument and sets the initial
  state. It has no check and no raise: the success branch is its only branch.
\<close>

definition PacketExtractor_init :: "int \<Rightarrow> startup_error + PacketExtractor" where
  "PacketExtractor_init packet_len_bytes =
     Inr \<lparr>packet_len = packet_len_bytes, state = SEARCHING, items_to_copy = 0\<rparr>"

text \<open>\<^verbatim>\<open>PacketRX.__init__\<close>, line 105: the pipeline passes the constant 256.\<close>

definition PacketRX_packet_extractor :: "startup_error + PacketExtractor" where
  "PacketRX_packet_extractor = PacketExtractor_init EXTRACT_LEN_BYTES"

text \<open>
  Modelled from the spec: \<^verbatim>\<open>get_tags_in_window\<close> and \<^verbatim>\<open>nitems_read\<close> are methods of the
  framework's block class, not of the repository. Section 4.2: an invocation receives the
  events whose stream offset falls within the window's absolute range, and scans them in
  ascending order of stream offset. \<open>nitems_read\<close> is the absolute offset of the window's
  first byte and \<open>stream_tags\<close> holds the tags attached to the input stream.
\<close>

definition get_tags_in_window :: "nat \<Rightarrow> tag_t list \<Rightarrow> nat \<Rightarrow> nat \<Rightarrow> tag_t list" where
  "get_tags_in_window nitems_read stream_tags rel_start rel_end =
     sort_key offset
       (filter (\<lambda>t. nitems_read + rel_start \<le> offset t \<and> offset t < nitems_read + rel_end)
          stream_tags)"

text \<open>
  What an invocation hands back to the framework: the argument of \<^verbatim>\<open>self.consume(0, _)\<close>,
  the argument of \<^verbatim>\<open>self.produce(0, _)\<close> (0 on the path that never calls it), the value
  returned by \<^verbatim>\<open>general_work\<close>, and the output buffer after the call.
\<close>

record work_result =
  consumed :: int
  produced :: int
  returned :: int
  out_buf :: "byte list"

text \<open>
  Slices with non-negative bounds \<open>a \<le> b\<close>: \<^verbatim>\<open>xs[a:b]\<close> and the in-place array
  assignment \<^verbatim>\<open>out[a:b] = src\<close>, which needs \<open>src\<close> to have the length of the slice.
\<close>

definition slice :: "'a list \<Rightarrow> int \<Rightarrow> int \<Rightarrow> 'a list" where
  "slice xs a b = take (nat (b - a)) (drop (nat a) xs)"

definition slice_assign :: "'a list \<Rightarrow> int \<Rightarrow> int \<Rightarrow> 'a list \<Rightarrow> 'a list" where
  "slice_assign out a b src = take (nat a) out @ src @ drop (nat b) out"

text \<open>Lines 29-38: the loop over the window's tags, left at the first start tag.\<close>

fun search_tags :: "PacketExtractor \<Rightarrow> nat \<Rightarrow> tag_t list \<Rightarrow> int \<Rightarrow> PacketExtractor \<times> int" where
  "search_tags self nitems_read [] read_ptr = (self, read_ptr)"
| "search_tags self nitems_read (t # ts) read_ptr =
     (if key t = start_key
      then (let self = self\<lparr>state := COPYING\<rparr>;
                self = self\<lparr>items_to_copy := packet_len self\<rparr>;
                tag_pos = int (offset t) - int nitems_read
            in (self, tag_pos))
      else search_tags self nitems_read ts read_ptr)"

text \<open>Lines 44-54: the body of the branch \<^verbatim>\<open>if self.state == 'COPYING'\<close>.\<close>

definition copy_items ::
  "PacketExtractor \<Rightarrow> byte list \<Rightarrow> byte list \<Rightarrow> int \<Rightarrow> int \<Rightarrow>
   PacketExtractor \<times> byte list \<times> int \<times> int" where
  "copy_items self in0 out0 read_ptr write_ptr =
     (let items_available = int (length in0) - read_ptr;
          items_to_process =
            min items_available (min (items_to_copy self) (int (length out0) - write_ptr));
          (self, out0, read_ptr, write_ptr) =
            (if items_to_process > 0
             then (self\<lparr>items_to_copy := items_to_copy self - items_to_process\<rparr>,
                   slice_assign out0 write_ptr (write_ptr + items_to_process)
                     (slice in0 read_ptr (read_ptr + items_to_process)),
                   read_ptr + items_to_process,
                   write_ptr + items_to_process)
             else (self, out0, read_ptr, write_ptr));
          self = (if items_to_copy self = 0 then self\<lparr>state := SEARCHING\<rparr> else self)
      in (self, out0, read_ptr, write_ptr))"

text \<open>Lines 43-58: the copying branch and the report to the framework.\<close>

definition finish_work ::
  "PacketExtractor \<Rightarrow> byte list \<Rightarrow> byte list \<Rightarrow> int \<Rightarrow> int \<Rightarrow> PacketExtractor \<times> work_result" where
  "finish_work self in0 out0 read_ptr write_ptr =
     (case (if state self = COPYING then copy_items self in0 out0 read_ptr write_ptr
            else (self, out0, read_ptr, write_ptr)) of
        (self, out0, read_ptr, write_ptr) \<Rightarrow>
          (self, \<lparr>consumed = read_ptr, produced = write_ptr,
                  returned = int (length out0), out_buf = out0\<rparr>))"

text \<open>
  \<^verbatim>\<open>PacketExtractor.general_work\<close> (lines 23-58). \<open>in0\<close> is the input window, \<open>out0\<close> the
  output buffer handed in by the framework (its length is the output capacity).
\<close>

definition general_work ::
  "PacketExtractor \<Rightarrow> nat \<Rightarrow> tag_t list \<Rightarrow> byte list \<Rightarrow> byte list \<Rightarrow>
   PacketExtractor \<times> work_result" where
  "general_work self nitems_read stream_tags in0 out0 =
     (let read_ptr = 0; write_ptr = 0;
          tags = get_tags_in_window nitems_read stream_tags 0 (length in0)
      in if state self = SEARCHING
         then (case search_tags self nitems_read tags read_ptr of
                 (self, read_ptr) \<Rightarrow>
                   if state self = SEARCHING
                   then (self, \<lparr>consumed = int (length in0), produced = 0,
                                returned = 0, out_buf = out0\<rparr>)
                   else finish_work self in0 out0 read_ptr write_ptr)
         else finish_work self in0 out0 read_ptr write_ptr)"

text \<open>The bytes an invocation wrote to the output: the first \<open>produced\<close> bytes of the buffer.\<close>

definition emitted :: "work_result \<Rightarrow> byte list" where
  "emitted r = take (nat (produced r)) (out_buf r)"

text \<open>
  The states an extractor constructed with \<open>n\<close> can reach: the constructed one, and the
  state after any invocation from a reachable one.
\<close>

inductive reachable :: "int \<Rightarrow> PacketExtractor \<Rightarrow> bool" where
  reachable_init: "PacketExtractor_init n = Inr self \<Longrightarrow> reachable n self"
| reachable_work: "reachable n self \<Longrightarrow> reachable n (fst (general_work self nitems_read stream_tags in0 out0))"

definition extractor_invariant :: "PacketExtractor \<Rightarrow> bool" where
  "extractor_invariant self =
     ((state self = SEARCHING \<or> state self = COPYING) \<and>
      0 \<le> items_to_copy self \<and> items_to_copy self \<le> packet_len self \<and>
      ((state self = COPYING) = (items_to_copy self > 0)))"

section \<open>Window delivery\<close>

text \<open>
  The bytes an invocation hands downstream: the framework advances its output cursor by
  the value the invocation returns, so these are the first \<open>returned\<close> bytes of the
  output buffer.
\<close>

definition delivered :: "work_result \<Rightarrow> byte list" where
  "delivered r = take (nat (returned r)) (out_buf r)"

text \<open>
  Modelled from the spec: the delivery loop belongs to the streaming framework, not to the
  repository. Sections 4.2 and 5: the framework invokes the extractor strictly
  sequentially; each invocation returns how many input bytes it consumed and how many
  output bytes it produced, and the framework advances its cursors by exactly those
  amounts. The input cursor advances by the amount passed to \<^verbatim>\<open>consume\<close>, and the unconsumed
  rest of the window (with the events in that rest) goes to the next invocation until the
  window is used up. The output cursor advances by the value \<^verbatim>\<open>general_work\<close> returns.
  \<open>cap\<close> is the capacity of the output buffer offered to each invocation; the buffer is
  handed in filled with zeros. The result is the final extractor, the bytes delivered
  downstream, and beside them the bytes the invocations copied (those counted by
  \<^verbatim>\<open>produce\<close>). A non-empty window from which an invocation consumes nothing would be
  offered again without end: that delivery does not complete, which is the value \<open>None\<close>.
\<close>

function run_window ::
  "nat \<Rightarrow> tag_t list \<Rightarrow> PacketExtractor \<Rightarrow> nat \<Rightarrow> byte list \<Rightarrow>
   (PacketExtractor \<times> byte list \<times> byte list) option" where
  "run_window cap stream_tags self nitems_read w =
     (if w = [] then Some (self, [], [])
      else (case general_work self nitems_read stream_tags w (replicate cap 0) of
              (self', r) \<Rightarrow>
                if consumed r \<le> 0 then None
                else (case run_window cap stream_tags self'
                             (nitems_read + nat (consumed r)) (drop (nat (consumed r)) w) of
                        None \<Rightarrow> None
                      | Some (self'', ds, cs) \<Rightarrow>
                          Some (self'', delivered r @ ds, emitted r @ cs))))"
  by pat_completeness auto
termination
  by (relation "measure (\<lambda>(cap, stream_tags, self, nitems_read, w). length w)") auto

declare run_window.simps [simp del]

text \<open>
  Modelled from the spec: a partition of the stream into windows, each fully consumed
  before the next is delivered (section 8, windowing).
\<close>

fun run_windows ::
  "nat \<Rightarrow> tag_t list \<Rightarrow> PacketExtractor \<Rightarrow> nat \<Rightarrow> byte list list \<Rightarrow>
   (PacketExtractor \<times> byte list \<times> byte list) option" where
  "run_windows cap stream_tags self nitems_read [] = Some (self, [], [])"
| "run_windows cap stream_tags self nitems_read (w # ws) =
     (case run_window cap stream_tags self nitems_read w of
        None \<Rightarrow> None
      | Some (self', ds, cs) \<Rightarrow>
          (case run_windows cap stream_tags self' (nitems_read + length w) ws of
             None \<Rightarrow> None
           | Some (self'', ds', cs') \<Rightarrow> Some (self'', ds @ ds', cs @ cs')))"

text \<open>The final extractor and the copied bytes of a delivery, without the delivered ones.\<close>

definition copied_of ::
  "(PacketExtractor \<times> byte list \<times> byte list) option \<Rightarrow> (PacketExtractor \<times> byte list) option" where
  "copied_of res = map_option (\<lambda>(self, ds, cs). (self, cs)) res"

subsection \<open>The extractor, one byte at a time\<close>

text \<open>
  A window-free description used in the proofs: what happens to the byte at absolute
  position \<open>pos\<close>. While copying the byte is emitted; while searching it is emitted if a
  start tag sits on it (the copy then begins with this byte), and skipped otherwise.
\<close>

definition byte_step :: "tag_t list \<Rightarrow> PacketExtractor \<Rightarrow> nat \<Rightarrow> byte \<Rightarrow> PacketExtractor \<times> byte list" where
  "byte_step stream_tags self pos b =
     (if state self = COPYING
      then (self\<lparr>items_to_copy := items_to_copy self - 1,
                 state := (if items_to_copy self - 1 = 0 then SEARCHING else COPYING)\<rparr>, [b])
      else if (\<exists>t\<in>set stream_tags. key t = start_key \<and> offset t = pos)
      then (self\<lparr>items_to_copy := packet_len self - 1,
                 state := (if packet_len self - 1 = 0 then SEARCHING else COPYING)\<rparr>, [b])
      else (self, []))"

fun bytewise :: "tag_t list \<Rightarrow> PacketExtractor \<Rightarrow> nat \<Rightarrow> byte list \<Rightarrow> PacketExtractor \<times> byte list" where
  "bytewise stream_tags self pos [] = (self, [])"
| "bytewise stream_tags self pos (b # bs) =
     (case byte_step stream_tags self pos b of
        (self', ys) \<Rightarrow>
          (case bytewise stream_tags self' (Suc pos) bs of
             (self'', zs) \<Rightarrow> (self'', ys @ zs)))"

section \<open>Theorems about the line code\<close>

lemma length_encode_stream: "length (encode_stream M p bs) = length bs"
  by (induction bs arbitrary: p) (auto simp: encode_def Let_def)

lemma length_decode_stream: "length (decode_stream M p ss) = length ss"
  by (induction ss arbitrary: p) (auto simp: decode_def Let_def)

lemma decode_rotate_encode_locked:
  assumes "\<forall>b\<in>set bs. 0 \<le> b \<and> b < 4"
  shows "decode_stream 4 ((q + r) mod 4) (rotate_symbols 4 r (encode_stream 4 q bs)) = bs"
  using assms
proof (induction bs arbitrary: q)
  case Nil
  show ?case by (simp add: rotate_symbols_def)
next
  case (Cons b bs)
  have b: "0 \<le> b" "b < 4" using Cons.prems by auto
  have step: "(((q + b) mod 4 + r) mod 4 - (q + r) mod 4) mod 4 = b"
  proof -
    have "(((q + b) mod 4 + r) mod 4 - (q + r) mod 4) mod 4 = ((q + b + r) - (q + r)) mod 4"
      by (simp add: mod_simps)
    also have "\<dots> = b" using b by simp
    finally show ?thesis .
  qed
  have rest: "decode_stream 4 (((q + b) mod 4 + r) mod 4)
                (rotate_symbols 4 r (encode_stream 4 ((q + b) mod 4) bs)) = bs"
    using Cons.IH [of "(q + b) mod 4"] Cons.prems by simp
  show ?case
    using step rest by (simp add: encode_def decode_def rotate_symbols_def Let_def)
qed

text \<open>
  C9. With \<open>M = 4\<close> and both registers starting at 0, encoding the delta indices
  \<open>[1,2,3,0]\<close> yields the symbols \<open>[1,3,2,2]\<close>, and decoding \<open>[1,3,2,2]\<close> recovers
  \<open>[1,2,3,0]\<close>.
\<close>

theorem scenario_C_encode_decode:
  "diff_encoder [1, 2, 3, 0] = [1, 3, 2, 2] \<and> diff_decoder [1, 3, 2, 2] = [1, 2, 3, 0]"
  by (simp add: diff_encoder_def diff_decoder_def QPSK_MODULUS_def encode_def decode_def)


text \<open>
  C1. For every sequence of input groups (each a value of the 4-symbol alphabet) and every
  constant rotation \<open>r\<close> in \<open>[0, 4)\<close>: encoding from register 0, rotating every encoded
  symbol by \<open>r\<close> modulo 4 and decoding from register 0 returns a sequence of the same
  length in which every group from the second position onward equals the original group.
  The first group comes out as the original plus \<open>r\<close> modulo 4.
\<close>

theorem rotation_cancels_after_first:
  assumes "\<forall>b\<in>set bs. 0 \<le> b \<and> b < QPSK_MODULUS"
    and "0 \<le> r" and "r < QPSK_MODULUS"
  shows "length (diff_decoder (rotate_symbols QPSK_MODULUS r (diff_encoder bs))) = length bs \<and>
         (\<forall>i. 1 \<le> i \<and> i < length bs \<longrightarrow>
              diff_decoder (rotate_symbols QPSK_MODULUS r (diff_encoder bs)) ! i = bs ! i) \<and>
         (bs \<noteq> [] \<longrightarrow>
              hd (diff_decoder (rotate_symbols QPSK_MODULUS r (diff_encoder bs))) = (hd bs + r) mod 4)"
proof (cases bs)
  case Nil
  then show ?thesis
    by (simp add: diff_decoder_def diff_encoder_def rotate_symbols_def)
next
  case (Cons b bs')
  have rng: "\<forall>x\<in>set bs'. 0 \<le> x \<and> x < 4"
    using assms(1) Cons by (simp add: QPSK_MODULUS_def)
  have b: "0 \<le> b" "b < 4"
    using assms(1) Cons by (simp_all add: QPSK_MODULUS_def)
  have tail: "decode_stream 4 ((b mod 4 + r) mod 4)
                (rotate_symbols 4 r (encode_stream 4 (b mod 4) bs')) = bs'"
    using decode_rotate_encode_locked [OF rng, of "b mod 4" r] .
  have whole: "diff_decoder (rotate_symbols QPSK_MODULUS r (diff_encoder bs)) = ((b + r) mod 4) # bs'"
    using tail b Cons
    by (simp add: diff_decoder_def diff_encoder_def QPSK_MODULUS_def rotate_symbols_def
        encode_def decode_def Let_def)
  show ?thesis
    unfolding whole using Cons by (auto simp: nth_Cons split: nat.splits)
qed

text \<open>
  Witness for C1: the groups \<open>[1,2,3,0]\<close> under the rotation \<open>r = 3\<close>. The first group
  comes back as 0, the others unchanged.
\<close>

theorem rotation_cancels_after_first_witness:
  "set [1, 2, 3, 0 :: int] \<subseteq> {0 ..< QPSK_MODULUS} \<and> (0::int) \<le> 3 \<and> 3 < QPSK_MODULUS \<and>
   diff_encoder [1, 2, 3, 0] = [1, 3, 2, 2] \<and>
   rotate_symbols QPSK_MODULUS 3 [1, 3, 2, 2] = [0, 2, 1, 1] \<and>
   diff_decoder [0, 2, 1, 1] ! 1 = 2 \<and> diff_decoder [0, 2, 1, 1] ! 2 = 3 \<and>
   diff_decoder [0, 2, 1, 1] ! 3 = 0 \<and> hd (diff_decoder [0, 2, 1, 1]) = 0"
proof -
  have h1: "\<forall>b\<in>set [1, 2, 3, 0 :: int]. 0 \<le> b \<and> b < QPSK_MODULUS"
    by (simp add: QPSK_MODULUS_def)
  have h2: "(0::int) \<le> 3" by simp
  have h3: "(3::int) < QPSK_MODULUS" by (simp add: QPSK_MODULUS_def)
  have e: "diff_encoder [1, 2, 3, 0] = [1, 3, 2, 2]"
    by (simp add: diff_encoder_def QPSK_MODULUS_def encode_def)
  have r: "rotate_symbols QPSK_MODULUS 3 [1, 3, 2, 2] = [0, 2, 1, 1]"
    by (simp add: rotate_symbols_def QPSK_MODULUS_def)
  show ?thesis
    using rotation_cancels_after_first [OF h1 h2 h3] h3 e r by (simp add: QPSK_MODULUS_def)
qed

section \<open>One invocation of the extractor\<close>

text \<open>
  The array assignment of lines 48-49 raises when the two slices differ in length. With
  non-negative cursors and the amount chosen at lines 45-46 they never do, and the output
  buffer keeps its length; the model therefore has no error branch for it.
\<close>

lemma slice_shapes_agree:
  assumes "0 \<le> read_ptr" and "0 \<le> write_ptr"
    and "n = min (int (length in0) - read_ptr) (min c (int (length out0) - write_ptr))"
    and "0 < n"
  shows "length (slice in0 read_ptr (read_ptr + n)) = nat n \<and>
         nat (write_ptr + n) \<le> length out0 \<and>
         length (slice_assign out0 write_ptr (write_ptr + n) (slice in0 read_ptr (read_ptr + n)))
           = length out0"
proof -
  have le1: "n \<le> int (length in0) - read_ptr" and le2: "n \<le> int (length out0) - write_ptr"
    using assms(3) by simp_all
  have a: "length (slice in0 read_ptr (read_ptr + n)) = nat n"
    using assms(1,4) le1 by (simp add: slice_def)
  have b: "nat (write_ptr + n) \<le> length out0"
    using assms(2,4) le2 by simp
  have c: "nat (write_ptr + n) = nat write_ptr + nat n"
    using assms(2,4) by (simp add: nat_add_distrib)
  have d: "nat write_ptr \<le> length out0" using b c by simp
  show ?thesis
    using a b c d by (simp add: slice_assign_def)
qed

lemma general_work_copying:
  assumes "state self = COPYING"
  shows "general_work self nr tags in0 out0 =
     (let n = min (int (length in0)) (min (items_to_copy self) (int (length out0)))
      in if 0 < n
         then (self\<lparr>items_to_copy := items_to_copy self - n,
                    state := (if items_to_copy self - n = 0 then SEARCHING else COPYING)\<rparr>,
               \<lparr>consumed = n, produced = n, returned = int (length out0),
                out_buf = take (nat n) in0 @ drop (nat n) out0\<rparr>)
         else (self\<lparr>state := (if items_to_copy self = 0 then SEARCHING else COPYING)\<rparr>,
               \<lparr>consumed = 0, produced = 0, returned = int (length out0), out_buf = out0\<rparr>))"
  using assms
  by (auto simp: general_work_def finish_work_def copy_items_def Let_def slice_def slice_assign_def)

lemma search_tags_find:
  "search_tags self nr ts rp =
     (case List.find (\<lambda>t. key t = start_key) ts of
        None \<Rightarrow> (self, rp)
      | Some t \<Rightarrow> (self\<lparr>state := COPYING, items_to_copy := packet_len self\<rparr>,
                   int (offset t) - int nr))"
  by (induction ts) (auto simp: Let_def)

lemma general_work_searching_none:
  assumes "state self = SEARCHING"
    and "List.find (\<lambda>t. key t = start_key) (get_tags_in_window nr tags 0 (length in0)) = None"
  shows "general_work self nr tags in0 out0 =
           (self, \<lparr>consumed = int (length in0), produced = 0, returned = 0, out_buf = out0\<rparr>)"
  using assms by (simp add: general_work_def search_tags_find)

lemma general_work_searching_some:
  assumes "state self = SEARCHING"
    and "List.find (\<lambda>t. key t = start_key) (get_tags_in_window nr tags 0 (length in0)) = Some t"
  shows "general_work self nr tags in0 out0 =
     (let p = int (offset t) - int nr;
          n = min (int (length in0) - p) (min (packet_len self) (int (length out0)))
      in if 0 < n
         then (self\<lparr>items_to_copy := packet_len self - n,
                    state := (if packet_len self - n = 0 then SEARCHING else COPYING)\<rparr>,
               \<lparr>consumed = p + n, produced = n, returned = int (length out0),
                out_buf = take (nat n) (drop (nat p) in0) @ drop (nat n) out0\<rparr>)
         else (self\<lparr>items_to_copy := packet_len self,
                    state := (if packet_len self = 0 then SEARCHING else COPYING)\<rparr>,
               \<lparr>consumed = p, produced = 0, returned = int (length out0), out_buf = out0\<rparr>))"
proof -
  have "t \<in> set (get_tags_in_window nr tags 0 (length in0))"
    using assms(2) by (auto simp: find_Some_iff)
  then have rng: "nr \<le> offset t" "offset t < nr + length in0"
    by (auto simp: get_tags_in_window_def)
  show ?thesis
    using assms rng
    by (auto simp: general_work_def search_tags_find finish_work_def copy_items_def Let_def
        slice_def slice_assign_def)
qed

lemma general_work_copying_pos:
  assumes "state self = COPYING"
    and "n = min (int (length in0)) (min (items_to_copy self) (int (length out0)))"
    and "0 < n"
  shows "general_work self nr tags in0 out0 =
           (self\<lparr>items_to_copy := items_to_copy self - n,
                 state := (if items_to_copy self - n = 0 then SEARCHING else COPYING)\<rparr>,
            \<lparr>consumed = n, produced = n, returned = int (length out0),
             out_buf = take (nat n) in0 @ drop (nat n) out0\<rparr>)"
  using general_work_copying [OF assms(1), of nr tags in0 out0] assms(2,3)
  by (simp add: Let_def)

lemma general_work_searching_some_pos:
  assumes "state self = SEARCHING"
    and "List.find (\<lambda>t. key t = start_key) (get_tags_in_window nr tags 0 (length in0)) = Some t"
    and "p = int (offset t) - int nr"
    and "n = min (int (length in0) - p) (min (packet_len self) (int (length out0)))"
    and "0 < n"
  shows "general_work self nr tags in0 out0 =
           (self\<lparr>items_to_copy := packet_len self - n,
                 state := (if packet_len self - n = 0 then SEARCHING else COPYING)\<rparr>,
            \<lparr>consumed = p + n, produced = n, returned = int (length out0),
             out_buf = take (nat n) (drop (nat p) in0) @ drop (nat n) out0\<rparr>)"
  using general_work_searching_some [OF assms(1,2), of out0] assms(3,4,5)
  by (simp add: Let_def)

lemma find_of_filter_Cons:
  "filter P xs = t # ts \<Longrightarrow> List.find P xs = Some t"
  by (induction xs) (auto split: if_splits)

text \<open>
  C4. For every window delivered while the extractor is in the Searching state: if the
  window carries no sync event (no tag with the start key among the tags of the window),
  the invocation reports the whole window length as consumed, produces no output (it
  returns 0, never calls \<^verbatim>\<open>produce\<close> and leaves the output buffer as it was) and leaves
  the extractor unchanged, so still Searching.
\<close>

theorem searching_without_event_consumes_window:
  assumes "state self = SEARCHING"
    and "\<forall>t\<in>set (get_tags_in_window nitems_read stream_tags 0 (length in0)). key t \<noteq> start_key"
  shows "general_work self nitems_read stream_tags in0 out0 =
           (self, \<lparr>consumed = int (length in0), produced = 0, returned = 0, out_buf = out0\<rparr>)"
proof -
  have "List.find (\<lambda>t. key t = start_key)
          (get_tags_in_window nitems_read stream_tags 0 (length in0)) = None"
    using assms(2) by (simp add: find_None_iff)
  with assms(1) show ?thesis by (rule general_work_searching_none)
qed

text \<open>
  Witness for C4: a window of 1000 bytes at stream offset 5000, with a tag of another key
  inside the window and a start tag beyond it.
\<close>

theorem searching_without_event_consumes_window_witness:
  "state \<lparr>packet_len = 256, state = SEARCHING, items_to_copy = 0\<rparr> = SEARCHING \<and>
   filter (\<lambda>t. key t = start_key)
     (get_tags_in_window 5000
        [\<lparr>key = ''other'', offset = 5003\<rparr>, \<lparr>key = start_key, offset = 6000\<rparr>]
        0 (length (replicate 1000 (7::byte)))) = [] \<and>
   general_work \<lparr>packet_len = 256, state = SEARCHING, items_to_copy = 0\<rparr> 5000
     [\<lparr>key = ''other'', offset = 5003\<rparr>, \<lparr>key = start_key, offset = 6000\<rparr>]
     (replicate 1000 7) [9, 9, 9, 9] =
   (\<lparr>packet_len = 256, state = SEARCHING, items_to_copy = 0\<rparr>,
    \<lparr>consumed = 1000, produced = 0, returned = 0, out_buf = [9, 9, 9, 9]\<rparr>)"
proof -
  have h1: "state \<lparr>packet_len = 256, state = SEARCHING, items_to_copy = 0\<rparr> = SEARCHING"
    by simp
  have h2: "\<forall>t\<in>set (get_tags_in_window 5000
              [\<lparr>key = ''other'', offset = 5003\<rparr>, \<lparr>key = start_key, offset = 6000\<rparr>]
              0 (length (replicate 1000 (7::byte)))). key t \<noteq> start_key"
    by (simp add: get_tags_in_window_def start_key_def)
  show ?thesis
    using searching_without_event_consumes_window [OF h1 h2, of "[9, 9, 9, 9]"]
    by (simp add: get_tags_in_window_def start_key_def)
qed

text \<open>
  C3. The extractor is Searching with \<open>packet_len = 256\<close> and receives a window of 300
  bytes carrying one sync event at local offset 50, with output capacity at least 250.
  That invocation consumes all 300 bytes, copies exactly 250 bytes (the window's bytes
  50 to 299) and leaves the extractor Copying with 6 bytes remaining. A following window
  of at least 6 bytes (output capacity at least 6, any tags) has its first 6 bytes copied,
  which completes the payload of 256 bytes and returns the extractor to Searching.
\<close>

theorem scenario_A_split_payload:
  assumes "state self = SEARCHING" and "packet_len self = 256"
    and "length in0 = 300"
    and "filter (\<lambda>t. key t = start_key) (get_tags_in_window nitems_read stream_tags 0 (length in0))
           = [\<lparr>key = start_key, offset = nitems_read + 50\<rparr>]"
    and "250 \<le> length out0"
    and "6 \<le> length in1" and "6 \<le> length out1"
    and "general_work self nitems_read stream_tags in0 out0 = (self1, r1)"
    and "general_work self1 nitems_read1 stream_tags1 in1 out1 = (self2, r2)"
  shows "consumed r1 = 300 \<and> produced r1 = 250 \<and> emitted r1 = drop 50 in0 \<and>
         state self1 = COPYING \<and> items_to_copy self1 = 6 \<and>
         consumed r2 = 6 \<and> produced r2 = 6 \<and> emitted r2 = take 6 in1 \<and>
         state self2 = SEARCHING \<and> items_to_copy self2 = 0 \<and>
         length (emitted r1 @ emitted r2) = 256"
proof -
  have f: "List.find (\<lambda>t. key t = start_key)
             (get_tags_in_window nitems_read stream_tags 0 (length in0))
           = Some \<lparr>key = start_key, offset = nitems_read + 50\<rparr>"
    using assms(4) by (rule find_of_filter_Cons)
  have n1: "(250::int) = min (int (length in0) - 50) (min (packet_len self) (int (length out0)))"
    using assms(2,3,5) by simp
  have first: "(self1, r1) = (self\<lparr>items_to_copy := packet_len self - 250,
                 state := (if packet_len self - 250 = 0 then SEARCHING else COPYING)\<rparr>,
            \<lparr>consumed = 50 + 250, produced = 250, returned = int (length out0),
             out_buf = take (nat 250) (drop (nat 50) in0) @ drop (nat 250) out0\<rparr>)"
    using general_work_searching_some_pos [OF assms(1) f _ n1] assms(8) by simp
  then have c: "state self1 = COPYING" "items_to_copy self1 = 6"
    using assms(2) by auto
  have n2: "(6::int) = min (int (length in1)) (min (items_to_copy self1) (int (length out1)))"
    using assms(6,7) c(2) by simp
  have second: "(self2, r2) = (self1\<lparr>items_to_copy := items_to_copy self1 - 6,
                 state := (if items_to_copy self1 - 6 = 0 then SEARCHING else COPYING)\<rparr>,
            \<lparr>consumed = 6, produced = 6, returned = int (length out1),
             out_buf = take (nat 6) in1 @ drop (nat 6) out1\<rparr>)"
    using general_work_copying_pos [OF c(1) n2] assms(9) by simp
  show ?thesis
    using first second c(2) assms(3,6) by (auto simp: emitted_def)
qed


text \<open>
  Witness for C3: a window of 300 bytes at stream offset 1000 with the start tag at 1050,
  followed by a window of 6 bytes.
\<close>

theorem scenario_A_split_payload_witness:
  "state \<lparr>packet_len = 256, state = SEARCHING, items_to_copy = 0\<rparr> = SEARCHING \<and>
   packet_len \<lparr>packet_len = 256, state = SEARCHING, items_to_copy = 0\<rparr> = 256 \<and>
   length (replicate 300 (1::byte)) = 300 \<and>
   filter (\<lambda>t. key t = start_key)
     (get_tags_in_window 1000 [\<lparr>key = start_key, offset = 1050\<rparr>] 0 (length (replicate 300 (1::byte))))
     = [\<lparr>key = start_key, offset = 1000 + 50\<rparr>] \<and>
   250 \<le> length (replicate 250 (0::byte)) \<and>
   6 \<le> length (replicate 6 (2::byte)) \<and> 6 \<le> length (replicate 8 (0::byte)) \<and>
   consumed (snd (general_work \<lparr>packet_len = 256, state = SEARCHING, items_to_copy = 0\<rparr> 1000
                    [\<lparr>key = start_key, offset = 1050\<rparr>] (replicate 300 1) (replicate 250 0))) = 300 \<and>
   items_to_copy (fst (general_work \<lparr>packet_len = 256, state = SEARCHING, items_to_copy = 0\<rparr> 1000
                    [\<lparr>key = start_key, offset = 1050\<rparr>] (replicate 300 1) (replicate 250 0))) = 6 \<and>
   state (fst (general_work
            (fst (general_work \<lparr>packet_len = 256, state = SEARCHING, items_to_copy = 0\<rparr> 1000
                    [\<lparr>key = start_key, offset = 1050\<rparr>] (replicate 300 1) (replicate 250 0)))
            1300 [] (replicate 6 2) (replicate 8 0))) = SEARCHING"
proof -
  have h4: "filter (\<lambda>t. key t = start_key)
     (get_tags_in_window 1000 [\<lparr>key = start_key, offset = 1050\<rparr>] 0 (length (replicate 300 (1::byte))))
     = [\<lparr>key = start_key, offset = 1000 + 50\<rparr>]"
    by (simp add: get_tags_in_window_def)
  have h5: "250 \<le> length (replicate 250 (0::byte))" by simp
  have h6: "6 \<le> length (replicate 6 (2::byte))" by simp
  have h7: "6 \<le> length (replicate 8 (0::byte))" by simp
  show ?thesis
    using scenario_A_split_payload
      [of "\<lparr>packet_len = 256, state = SEARCHING, items_to_copy = 0\<rparr>"
          "replicate 300 1" 1000 "[\<lparr>key = start_key, offset = 1050\<rparr>]"
          "replicate 250 0" "replicate 6 2" "replicate 8 0",
       OF _ _ _ h4 h5 h6 h7 prod.collapse [symmetric] prod.collapse [symmetric]] h4
    by simp
qed

text \<open>
  C5. There is a single copy session at a time: an invocation that starts in the Copying
  state does exactly what it would do with no tag at all. Its read cursor starts at the
  window's first byte (consumed and produced agree, the bytes emitted are the window's
  first ones), the remaining count only decreases by the number of bytes copied, never
  restarts, and the extractor is back in Searching, where the next search begins, exactly
  when the remaining count has reached 0.
\<close>

theorem copying_ignores_events:
  assumes "state self = COPYING"
    and "general_work self nitems_read stream_tags in0 out0 = (self', r)"
  shows "general_work self nitems_read [] in0 out0 = (self', r) \<and>
         consumed r = produced r \<and>
         emitted r = take (nat (produced r)) in0 \<and>
         items_to_copy self' = items_to_copy self - produced r \<and>
         produced r \<le> max 0 (items_to_copy self) \<and>
         (state self' = SEARCHING) = (items_to_copy self' = 0)"
proof -
  have same: "general_work self nitems_read [] in0 out0 =
              general_work self nitems_read stream_tags in0 out0"
    using assms(1) by (simp add: general_work_copying)
  show ?thesis
    unfolding same
    using general_work_copying [OF assms(1), of nitems_read stream_tags in0 out0] assms(2)
    by (auto simp: Let_def emitted_def split: if_splits)
qed

text \<open>
  Witness for C5: 6 bytes remain to be copied and the window of 4 bytes carries a start tag
  on its second byte; the outcome is the one without the tag.
\<close>

theorem copying_ignores_events_witness:
  "state \<lparr>packet_len = 256, state = COPYING, items_to_copy = 6\<rparr> = COPYING \<and>
   general_work \<lparr>packet_len = 256, state = COPYING, items_to_copy = 6\<rparr> 300
     [\<lparr>key = start_key, offset = 301\<rparr>] [1, 2, 3, 4] [0, 0, 0, 0, 0, 0, 0, 0] =
   (\<lparr>packet_len = 256, state = COPYING, items_to_copy = 2\<rparr>,
    \<lparr>consumed = 4, produced = 4, returned = 8, out_buf = [1, 2, 3, 4, 0, 0, 0, 0]\<rparr>) \<and>
   general_work \<lparr>packet_len = 256, state = COPYING, items_to_copy = 6\<rparr> 300
     [] [1, 2, 3, 4] [0, 0, 0, 0, 0, 0, 0, 0] =
   (\<lparr>packet_len = 256, state = COPYING, items_to_copy = 2\<rparr>,
    \<lparr>consumed = 4, produced = 4, returned = 8, out_buf = [1, 2, 3, 4, 0, 0, 0, 0]\<rparr>)"
proof -
  have h1: "state \<lparr>packet_len = 256, state = COPYING, items_to_copy = 6\<rparr> = COPYING"
    by simp
  have h2: "general_work \<lparr>packet_len = 256, state = COPYING, items_to_copy = 6\<rparr> 300
     [\<lparr>key = start_key, offset = 301\<rparr>] [1, 2, 3, 4] [0, 0, 0, 0, 0, 0, 0, 0] =
   (\<lparr>packet_len = 256, state = COPYING, items_to_copy = 2\<rparr>,
    \<lparr>consumed = 4, produced = 4, returned = 8, out_buf = [1, 2, 3, 4, 0, 0, 0, 0]\<rparr>)"
    by (simp add: general_work_def get_tags_in_window_def finish_work_def copy_items_def
        slice_def slice_assign_def)
  show ?thesis
    using copying_ignores_events [OF h1 h2] h1 h2 by simp
qed

text \<open>
  Counterexample for C6 as stated: Searching with \<open>packet_len = 256\<close>, a window of three
  bytes with the sync event on the last one (offset 2). The invocation copies one byte
  and leaves 255 remaining, not zero bytes copied with 256 remaining.
\<close>

theorem event_at_last_byte_counterexample:
  "items_to_copy (fst (general_work \<lparr>packet_len = 256, state = SEARCHING, items_to_copy = 0\<rparr> 0
       [\<lparr>key = start_key, offset = 2\<rparr>] [1, 2, 3] [0, 0, 0, 0])) = 255 \<and>
   produced (snd (general_work \<lparr>packet_len = 256, state = SEARCHING, items_to_copy = 0\<rparr> 0
       [\<lparr>key = start_key, offset = 2\<rparr>] [1, 2, 3] [0, 0, 0, 0])) = 1 \<and>
   \<not> (state (fst (general_work \<lparr>packet_len = 256, state = SEARCHING, items_to_copy = 0\<rparr> 0
          [\<lparr>key = start_key, offset = 2\<rparr>] [1, 2, 3] [0, 0, 0, 0])) = COPYING \<and>
      items_to_copy (fst (general_work \<lparr>packet_len = 256, state = SEARCHING, items_to_copy = 0\<rparr> 0
          [\<lparr>key = start_key, offset = 2\<rparr>] [1, 2, 3] [0, 0, 0, 0])) = 256 \<and>
      produced (snd (general_work \<lparr>packet_len = 256, state = SEARCHING, items_to_copy = 0\<rparr> 0
          [\<lparr>key = start_key, offset = 2\<rparr>] [1, 2, 3] [0, 0, 0, 0])) = 0)"
  by (simp add: general_work_def get_tags_in_window_def finish_work_def copy_items_def
      slice_def slice_assign_def)

text \<open>
  C6, amended. The extractor is Searching, \<open>packet_len \<ge> 1\<close>, the output capacity is at
  least 1, and the sync event of the window lands exactly on the window's last byte. Then
  the invocation consumes the whole window, copies exactly one byte, the last byte of the
  window, and leaves \<open>packet_len - 1\<close> bytes remaining: the extractor is Copying when
  \<open>packet_len > 1\<close> and Searching again when \<open>packet_len = 1\<close>. The copy starts at the
  event's own byte, as in scenario A.
\<close>

theorem event_at_last_byte_copies_one:
  assumes "state self = SEARCHING"
    and "\<exists>t\<in>set (get_tags_in_window nitems_read stream_tags 0 (length in0)). key t = start_key"
    and "\<forall>t\<in>set (get_tags_in_window nitems_read stream_tags 0 (length in0)).
           key t = start_key \<longrightarrow> offset t = nitems_read + length in0 - 1"
    and "1 \<le> packet_len self" and "1 \<le> length out0"
    and "general_work self nitems_read stream_tags in0 out0 = (self', r)"
  shows "consumed r = int (length in0) \<and> produced r = 1 \<and> emitted r = [last in0] \<and>
         items_to_copy self' = packet_len self - 1 \<and>
         state self' = (if packet_len self = 1 then SEARCHING else COPYING)"
proof -
  obtain t where t: "List.find (\<lambda>t. key t = start_key)
                       (get_tags_in_window nitems_read stream_tags 0 (length in0)) = Some t"
    using assms(2) by (cases "List.find (\<lambda>t. key t = start_key)
                       (get_tags_in_window nitems_read stream_tags 0 (length in0))")
      (auto simp: find_None_iff)
  then have tin: "t \<in> set (get_tags_in_window nitems_read stream_tags 0 (length in0))"
    and tk: "key t = start_key"
    by (auto simp: find_Some_iff)
  have off: "offset t = nitems_read + length in0 - 1"
    using assms(3) tin tk by blast
  have ne: "in0 \<noteq> []"
    using tin by (auto simp: get_tags_in_window_def)
  then have len: "0 < length in0" by simp
  have p: "int (length in0) - 1 = int (offset t) - int nitems_read"
    using off len by (cases "length in0") simp_all
  have n: "(1::int) = min (int (length in0) - (int (length in0) - 1))
                        (min (packet_len self) (int (length out0)))"
    using assms(4,5) by simp
  have res: "(self', r) = (self\<lparr>items_to_copy := packet_len self - 1,
                 state := (if packet_len self - 1 = 0 then SEARCHING else COPYING)\<rparr>,
            \<lparr>consumed = (int (length in0) - 1) + 1, produced = 1, returned = int (length out0),
             out_buf = take (nat 1) (drop (nat (int (length in0) - 1)) in0) @ drop (nat 1) out0\<rparr>)"
    using general_work_searching_some_pos [OF assms(1) t p n] assms(6) by simp
  have "drop (length (butlast in0)) (butlast in0 @ [last in0]) = [last in0]"
    by simp
  then have lastb: "take (Suc 0) (drop (length in0 - Suc 0) in0) = [last in0]"
    using ne by simp
  show ?thesis
    using res lastb by (auto simp: emitted_def nat_diff_distrib')
qed


text \<open>
  Witness for the amended C6: a window of three bytes at stream offset 40, the start tag
  at 42.
\<close>

theorem event_at_last_byte_copies_one_witness:
  "state \<lparr>packet_len = 256, state = SEARCHING, items_to_copy = 0\<rparr> = SEARCHING \<and>
   (\<exists>t\<in>set (get_tags_in_window 40 [\<lparr>key = start_key, offset = 42\<rparr>] 0 (length [1, 2, 3 :: byte])).
       key t = start_key) \<and>
   map offset (filter (\<lambda>t. key t = start_key)
     (get_tags_in_window 40 [\<lparr>key = start_key, offset = 42\<rparr>] 0 (length [1, 2, 3 :: byte]))) =
     [40 + length [1, 2, 3 :: byte] - 1] \<and>
   general_work \<lparr>packet_len = 256, state = SEARCHING, items_to_copy = 0\<rparr> 40
     [\<lparr>key = start_key, offset = 42\<rparr>] [1, 2, 3] [0, 0, 0, 0] =
   (\<lparr>packet_len = 256, state = COPYING, items_to_copy = 255\<rparr>,
    \<lparr>consumed = 3, produced = 1, returned = 4, out_buf = [3, 0, 0, 0]\<rparr>) \<and>
   emitted \<lparr>consumed = 3, produced = 1, returned = 4, out_buf = [3, 0, 0, 0]\<rparr> = [last [1, 2, 3]]"
proof -
  have h1: "state \<lparr>packet_len = 256, state = SEARCHING, items_to_copy = 0\<rparr> = SEARCHING"
    by simp
  have h2: "\<exists>t\<in>set (get_tags_in_window 40 [\<lparr>key = start_key, offset = 42\<rparr>] 0
                      (length [1, 2, 3 :: byte])). key t = start_key"
    by (simp add: get_tags_in_window_def)
  have h3: "\<forall>t\<in>set (get_tags_in_window 40 [\<lparr>key = start_key, offset = 42\<rparr>] 0
                      (length [1, 2, 3 :: byte])).
              key t = start_key \<longrightarrow> offset t = 40 + length [1, 2, 3 :: byte] - 1"
    by (simp add: get_tags_in_window_def)
  have h4: "1 \<le> packet_len \<lparr>packet_len = 256, state = SEARCHING, items_to_copy = 0\<rparr>"
    by simp
  have h5: "1 \<le> length [0, 0, 0, 0 :: byte]" by simp
  have h6: "general_work \<lparr>packet_len = 256, state = SEARCHING, items_to_copy = 0\<rparr> 40
     [\<lparr>key = start_key, offset = 42\<rparr>] [1, 2, 3] [0, 0, 0, 0] =
   (\<lparr>packet_len = 256, state = COPYING, items_to_copy = 255\<rparr>,
    \<lparr>consumed = 3, produced = 1, returned = 4, out_buf = [3, 0, 0, 0]\<rparr>)"
    by (simp add: general_work_def get_tags_in_window_def finish_work_def copy_items_def
        slice_def slice_assign_def)
  show ?thesis
    using event_at_last_byte_copies_one [OF h1 h2 h3 h4 h5 h6] h1 h2 h6
    by (simp add: get_tags_in_window_def)
qed

text \<open>
  C7. The claim asks that the values handed back to the framework be the number of bytes
  consumed and the number of bytes produced. At this input the invocation copies 2 bytes
  and reports 2 through \<^verbatim>\<open>produce\<close>, but the value it returns is 8, the length of the
  output buffer (line 58), not the number of bytes produced.
\<close>

theorem returned_value_is_capacity_not_produced:
  "general_work \<lparr>packet_len = 4, state = SEARCHING, items_to_copy = 0\<rparr> 10
     [\<lparr>key = start_key, offset = 11\<rparr>] [1, 2, 3] [0, 0, 0, 0, 0, 0, 0, 0] =
   (\<lparr>packet_len = 4, state = COPYING, items_to_copy = 2\<rparr>,
    \<lparr>consumed = 3, produced = 2, returned = 8, out_buf = [2, 3, 0, 0, 0, 0, 0, 0]\<rparr>)"
  by (simp add: general_work_def get_tags_in_window_def finish_work_def copy_items_def
      slice_def slice_assign_def)

text \<open>
  Counterexample for C8 as stated: the constructor accepts \<open>packet_len = 0\<close> and
  \<open>packet_len = -5\<close> and returns an extractor, and the extractor built with \<open>-5\<close>
  processes a window.
\<close>

theorem malformed_packet_len_accepted_counterexample:
  "PacketExtractor_init 0 = Inr \<lparr>packet_len = 0, state = SEARCHING, items_to_copy = 0\<rparr> \<and>
   PacketExtractor_init (- 5) = Inr \<lparr>packet_len = - 5, state = SEARCHING, items_to_copy = 0\<rparr> \<and>
   PacketExtractor_init (- 5) \<noteq> Inl ConfigError \<and>
   general_work \<lparr>packet_len = - 5, state = SEARCHING, items_to_copy = 0\<rparr> 10
     [\<lparr>key = start_key, offset = 11\<rparr>] [1, 2, 3] [0, 0, 0, 0] =
   (\<lparr>packet_len = - 5, state = COPYING, items_to_copy = - 5\<rparr>,
    \<lparr>consumed = 1, produced = 0, returned = 4, out_buf = [0, 0, 0, 0]\<rparr>)"
  by (simp add: PacketExtractor_init_def general_work_def get_tags_in_window_def
      finish_work_def copy_items_def slice_def slice_assign_def)

text \<open>
  C8, amended. The constructor of the extractor performs no validation: for every
  \<open>packet_len\<close>, zero and negative values included, it returns an extractor in the
  Searching state with \<open>items_to_copy = 0\<close>. The receive pipeline has no configurable
  alphabet size or packet length: it always builds the extractor with the constant 256,
  which is positive, and the line code with modulus 4, a power of two.
\<close>

theorem construction_never_fails:
  "PacketExtractor_init n = Inr \<lparr>packet_len = n, state = SEARCHING, items_to_copy = 0\<rparr> \<and>
   PacketRX_packet_extractor = Inr \<lparr>packet_len = 256, state = SEARCHING, items_to_copy = 0\<rparr> \<and>
   0 < EXTRACT_LEN_BYTES \<and> QPSK_MODULUS = 2 ^ 2"
  by (simp add: PacketExtractor_init_def PacketRX_packet_extractor_def EXTRACT_LEN_BYTES_def
      QPSK_MODULUS_def)

lemma general_work_preserves_invariant:
  assumes "extractor_invariant self" and "0 < packet_len self"
  shows "extractor_invariant (fst (general_work self nr tags in0 out0)) \<and>
         packet_len (fst (general_work self nr tags in0 out0)) = packet_len self"
proof (cases "state self")
  case COPYING
  show ?thesis
    using assms general_work_copying [OF COPYING, of nr tags in0 out0]
    by (auto simp: extractor_invariant_def Let_def split: if_splits)
next
  case SEARCHING
  show ?thesis
  proof (cases "List.find (\<lambda>t. key t = start_key) (get_tags_in_window nr tags 0 (length in0))")
    case None
    show ?thesis
      using assms general_work_searching_none [OF SEARCHING None, of out0] by simp
  next
    case (Some t)
    show ?thesis
      using assms general_work_searching_some [OF SEARCHING Some, of out0]
      by (auto simp: extractor_invariant_def Let_def split: if_splits)
  qed
qed

text \<open>
  C10. With \<open>packet_len > 0\<close>, every state reached from the constructed extractor by any
  number of invocations (any window, tags, stream offset and output buffer) satisfies the
  invariant: the state is Searching or Copying, \<open>0 \<le> items_to_copy \<le> packet_len\<close>, and
  the state is Copying exactly when \<open>items_to_copy > 0\<close>. \<open>packet_len\<close> never changes.
\<close>

theorem reachable_states_satisfy_invariant:
  assumes "0 < n" and "reachable n self"
  shows "extractor_invariant self \<and> packet_len self = n"
  using assms(2,1)
proof (induction rule: reachable.induct)
  case (reachable_init n self)
  then show ?case
    by (auto simp: PacketExtractor_init_def extractor_invariant_def)
next
  case (reachable_work n self nitems_read stream_tags in0 out0)
  then show ?case
    using general_work_preserves_invariant [of self nitems_read stream_tags in0 out0] by simp
qed


text \<open>
  Witness for C10: the state after one invocation that finds a start tag on the second of
  three bytes.
\<close>

theorem reachable_states_satisfy_invariant_witness:
  "(0::int) < 256 \<and>
   reachable 256 (fst (general_work \<lparr>packet_len = 256, state = SEARCHING, items_to_copy = 0\<rparr> 0
       [\<lparr>key = start_key, offset = 1\<rparr>] [1, 2, 3] [0, 0, 0, 0])) \<and>
   fst (general_work \<lparr>packet_len = 256, state = SEARCHING, items_to_copy = 0\<rparr> 0
       [\<lparr>key = start_key, offset = 1\<rparr>] [1, 2, 3] [0, 0, 0, 0]) =
     \<lparr>packet_len = 256, state = COPYING, items_to_copy = 254\<rparr> \<and>
   extractor_invariant \<lparr>packet_len = 256, state = COPYING, items_to_copy = 254\<rparr>"
proof -
  have h1: "(0::int) < 256" by simp
  have r0: "reachable 256 \<lparr>packet_len = 256, state = SEARCHING, items_to_copy = 0\<rparr>"
    by (rule reachable_init) (simp add: PacketExtractor_init_def)
  have r1: "reachable 256 (fst (general_work \<lparr>packet_len = 256, state = SEARCHING, items_to_copy = 0\<rparr> 0
       [\<lparr>key = start_key, offset = 1\<rparr>] [1, 2, 3] [0, 0, 0, 0]))"
    by (rule reachable_work [OF r0])
  have e: "fst (general_work \<lparr>packet_len = 256, state = SEARCHING, items_to_copy = 0\<rparr> 0
       [\<lparr>key = start_key, offset = 1\<rparr>] [1, 2, 3] [0, 0, 0, 0]) =
     \<lparr>packet_len = 256, state = COPYING, items_to_copy = 254\<rparr>"
    by (simp add: general_work_def get_tags_in_window_def finish_work_def copy_items_def
        slice_def slice_assign_def)
  show ?thesis
    using reachable_states_satisfy_invariant [OF h1 r1] r1 e by simp
qed

section \<open>Windowing\<close>

lemma bytewise_append:
  "bytewise tags self pos (xs @ ys) =
     (case bytewise tags self pos xs of
        (s1, o1) \<Rightarrow> (case bytewise tags s1 (pos + length xs) ys of
                        (s2, o2) \<Rightarrow> (s2, o1 @ o2)))"
  by (induction xs arbitrary: self pos) (auto split: prod.splits)

lemma byte_step_invariant:
  assumes "extractor_invariant self" and "0 < packet_len self"
  shows "extractor_invariant (fst (byte_step tags self pos b)) \<and>
         packet_len (fst (byte_step tags self pos b)) = packet_len self"
  using assms by (auto simp: byte_step_def extractor_invariant_def)

lemma bytewise_invariant:
  assumes "extractor_invariant self" and "0 < packet_len self"
  shows "extractor_invariant (fst (bytewise tags self pos xs)) \<and>
         packet_len (fst (bytewise tags self pos xs)) = packet_len self"
  using assms
proof (induction xs arbitrary: self pos)
  case Nil
  then show ?case by simp
next
  case (Cons b bs)
  obtain s1 o1 where s1: "byte_step tags self pos b = (s1, o1)"
    by (cases "byte_step tags self pos b")
  have i1: "extractor_invariant s1" "packet_len s1 = packet_len self"
    using byte_step_invariant [OF Cons.prems, of tags pos b] s1 by simp_all
  then have "0 < packet_len s1" using Cons.prems by simp
  from Cons.IH [OF i1(1) this, of "Suc pos"] i1(2) s1 show ?case
    by (auto split: prod.splits)
qed

lemma bytewise_copying:
  assumes "state self = COPYING" and "int (length xs) \<le> items_to_copy self" and "xs \<noteq> []"
  shows "bytewise tags self pos xs =
           (self\<lparr>items_to_copy := items_to_copy self - int (length xs),
                 state := (if items_to_copy self - int (length xs) = 0 then SEARCHING else COPYING)\<rparr>,
            xs)"
  using assms
proof (induction xs arbitrary: self pos)
  case Nil
  then show ?case by simp
next
  case (Cons b bs)
  show ?case
  proof (cases "bs = []")
    case True
    then show ?thesis using Cons.prems by (simp add: byte_step_def)
  next
    case False
    let ?s1 = "self\<lparr>items_to_copy := items_to_copy self - 1, state := COPYING\<rparr>"
    have len: "1 \<le> int (length bs)" using False by (cases bs) simp_all
    have st: "byte_step tags self pos b = (?s1, [b])"
      using Cons.prems len by (simp add: byte_step_def)
    have "bytewise tags ?s1 (Suc pos) bs =
           (?s1\<lparr>items_to_copy := items_to_copy ?s1 - int (length bs),
                 state := (if items_to_copy ?s1 - int (length bs) = 0 then SEARCHING else COPYING)\<rparr>,
            bs)"
      using Cons.prems False by (intro Cons.IH) simp_all
    then show ?thesis
      using st by (simp add: algebra_simps)
  qed
qed

lemma bytewise_skip:
  assumes "state self = SEARCHING"
    and "\<forall>t\<in>set tags. key t = start_key \<longrightarrow> \<not> (pos \<le> offset t \<and> offset t < pos + length xs)"
  shows "bytewise tags self pos xs = (self, [])"
  using assms
proof (induction xs arbitrary: pos)
  case Nil
  then show ?case by simp
next
  case (Cons b bs)
  have here: "byte_step tags self pos b = (self, [])"
    using Cons.prems by (auto simp: byte_step_def)
  have "bytewise tags self (Suc pos) bs = (self, [])"
    using Cons.prems by (intro Cons.IH) auto
  with here show ?case by simp
qed

lemma bytewise_start:
  assumes "state self = SEARCHING"
    and "t \<in> set tags" and "key t = start_key" and "offset t = pos"
    and "xs \<noteq> []" and "int (length xs) \<le> packet_len self"
  shows "bytewise tags self pos xs =
           (self\<lparr>items_to_copy := packet_len self - int (length xs),
                 state := (if packet_len self - int (length xs) = 0 then SEARCHING else COPYING)\<rparr>,
            xs)"
proof -
  obtain b bs where xs: "xs = b # bs" using assms(5) by (cases xs) auto
  show ?thesis
  proof (cases "bs = []")
    case True
    then show ?thesis using assms xs by (auto simp: byte_step_def)
  next
    case False
    let ?s1 = "self\<lparr>items_to_copy := packet_len self - 1, state := COPYING\<rparr>"
    have len: "1 \<le> int (length bs)" using False by (cases bs) simp_all
    have st: "byte_step tags self pos b = (?s1, [b])"
      using assms xs len by (auto simp: byte_step_def)
    have "bytewise tags ?s1 (Suc pos) bs =
           (?s1\<lparr>items_to_copy := items_to_copy ?s1 - int (length bs),
                 state := (if items_to_copy ?s1 - int (length bs) = 0 then SEARCHING else COPYING)\<rparr>,
            bs)"
      using assms(6) xs False by (intro bytewise_copying) simp_all
    then show ?thesis
      using st xs by (simp add: algebra_simps)
  qed
qed

lemma find_in_sorted_is_least:
  assumes "sorted (map f xs)" and "List.find P xs = Some t"
  shows "\<forall>u\<in>set xs. P u \<longrightarrow> f t \<le> f u"
  using assms
proof (induction xs)
  case Nil
  then show ?case by simp
next
  case (Cons a xs)
  then show ?case by (cases "P a") auto
qed

lemma first_start_tag_is_earliest:
  assumes "List.find (\<lambda>t. key t = start_key) (get_tags_in_window nr tags 0 n) = Some t"
  shows "key t = start_key \<and> t \<in> set tags \<and> nr \<le> offset t \<and> offset t < nr + n \<and>
         (\<forall>u\<in>set tags. key u = start_key \<longrightarrow> \<not> (nr \<le> offset u \<and> offset u < offset t))"
proof -
  have srt: "sorted (map offset (get_tags_in_window nr tags 0 n))"
    by (simp add: get_tags_in_window_def)
  have mem: "t \<in> set (get_tags_in_window nr tags 0 n)" and k: "key t = start_key"
    using assms by (auto simp: find_Some_iff)
  then have rng: "t \<in> set tags" "nr \<le> offset t" "offset t < nr + n"
    by (auto simp: get_tags_in_window_def)
  have least: "\<forall>u\<in>set (get_tags_in_window nr tags 0 n). key u = start_key \<longrightarrow> offset t \<le> offset u"
    using find_in_sorted_is_least [OF srt assms] .
  have "\<not> (nr \<le> offset u \<and> offset u < offset t)" if u: "u \<in> set tags" "key u = start_key" for u
  proof
    assume a: "nr \<le> offset u \<and> offset u < offset t"
    then have "u \<in> set (get_tags_in_window nr tags 0 n)"
      using u(1) rng(3) by (simp add: get_tags_in_window_def)
    then have "offset t \<le> offset u" using least u(2) by blast
    then show False using a by simp
  qed
  then show ?thesis using k rng by blast
qed

lemma general_work_bytewise:
  assumes inv: "extractor_invariant self" and pl: "0 < packet_len self"
    and cap: "0 < cap" and ne: "w \<noteq> []"
    and gw: "general_work self nr tags w (replicate cap 0) = (self', r)"
  shows "0 < consumed r \<and> consumed r \<le> int (length w) \<and>
         bytewise tags self nr (take (nat (consumed r)) w) = (self', emitted r)"
proof (cases "state self")
  case COPYING
  define n where "n = min (int (length w)) (min (items_to_copy self) (int (length (replicate cap (0::byte)))))"
  have c: "0 < items_to_copy self" using inv COPYING by (simp add: extractor_invariant_def)
  have lw: "0 < int (length w)" using ne by simp
  have npos: "0 < n" using c cap lw by (simp add: n_def)
  have nle: "n \<le> int (length w)" "n \<le> items_to_copy self" by (simp_all add: n_def)
  have res: "(self', r) = (self\<lparr>items_to_copy := items_to_copy self - n,
                 state := (if items_to_copy self - n = 0 then SEARCHING else COPYING)\<rparr>,
            \<lparr>consumed = n, produced = n, returned = int (length (replicate cap (0::byte))),
             out_buf = take (nat n) w @ drop (nat n) (replicate cap 0)\<rparr>)"
    using general_work_copying_pos [OF COPYING n_def npos, of nr tags] gw by simp
  have len: "int (length (take (nat n) w)) = n" using npos nle by simp
  have em: "emitted r = take (nat n) w"
    using res nle npos by (simp add: emitted_def)
  have "bytewise tags self nr (take (nat n) w) =
          (self\<lparr>items_to_copy := items_to_copy self - int (length (take (nat n) w)),
                state := (if items_to_copy self - int (length (take (nat n) w)) = 0
                          then SEARCHING else COPYING)\<rparr>, take (nat n) w)"
    using COPYING nle npos ne len by (intro bytewise_copying) auto
  then show ?thesis
    using res em npos nle len by simp
next
  case SEARCHING
  show ?thesis
  proof (cases "List.find (\<lambda>t. key t = start_key) (get_tags_in_window nr tags 0 (length w))")
    case None
    have res: "(self', r) = (self, \<lparr>consumed = int (length w), produced = 0, returned = 0,
                                   out_buf = replicate cap 0\<rparr>)"
      using general_work_searching_none [OF SEARCHING None, of "replicate cap 0"] gw by simp
    have "\<forall>t\<in>set tags. key t = start_key \<longrightarrow> \<not> (nr \<le> offset t \<and> offset t < nr + length w)"
      using None by (auto simp: find_None_iff get_tags_in_window_def)
    then have "bytewise tags self nr w = (self, [])"
      using SEARCHING by (intro bytewise_skip)
    then show ?thesis
      using res ne by (simp add: emitted_def)
  next
    case (Some t)
    note first = first_start_tag_is_earliest [OF Some]
    define p where "p = offset t - nr"
    define n where "n = min (int (length w) - int p)
                          (min (packet_len self) (int (length (replicate cap (0::byte)))))"
    have pw: "p < length w" and off: "offset t = nr + p"
      using first by (auto simp: p_def)
    have pint: "int p = int (offset t) - int nr" using off by simp
    have npos: "0 < n" using pw pl cap by (simp add: n_def)
    have nle: "n \<le> int (length w) - int p" "n \<le> packet_len self" by (simp_all add: n_def)
    have n_def': "n = min (int (length w) - int p) (min (packet_len self) (int (length (replicate cap (0::byte)))))"
      by (rule n_def)
    have res: "(self', r) = (self\<lparr>items_to_copy := packet_len self - n,
                 state := (if packet_len self - n = 0 then SEARCHING else COPYING)\<rparr>,
            \<lparr>consumed = int p + n, produced = n, returned = int (length (replicate cap (0::byte))),
             out_buf = take (nat n) (drop (nat (int p)) w) @ drop (nat n) (replicate cap 0)\<rparr>)"
      using general_work_searching_some_pos [OF SEARCHING Some pint n_def' npos] gw by simp
    let ?xs = "take (nat n) (drop p w)"
    have lenxs: "int (length ?xs) = n" using npos nle pw by simp
    have xsne: "?xs \<noteq> []" using lenxs npos by auto
    have em: "emitted r = ?xs"
      using res lenxs by (simp add: emitted_def)
    have split: "take (nat (int p + n)) w = take p w @ ?xs"
      using npos by (simp add: nat_add_distrib take_add)
    have lenp: "length (take p w) = p" using pw by simp
    have skip: "bytewise tags self nr (take p w) = (self, [])"
    proof (rule bytewise_skip [OF SEARCHING])
      show "\<forall>u\<in>set tags. key u = start_key \<longrightarrow>
              \<not> (nr \<le> offset u \<and> offset u < nr + length (take p w))"
        using first off lenp by auto
    qed
    have start: "bytewise tags self (nr + p) ?xs =
           (self\<lparr>items_to_copy := packet_len self - int (length ?xs),
                 state := (if packet_len self - int (length ?xs) = 0 then SEARCHING else COPYING)\<rparr>,
            ?xs)"
      using first off xsne nle lenxs
      by (intro bytewise_start [OF SEARCHING, of t]) auto
    have "bytewise tags self nr (take p w @ ?xs) =
            (self\<lparr>items_to_copy := packet_len self - n,
                 state := (if packet_len self - n = 0 then SEARCHING else COPYING)\<rparr>, ?xs)"
      unfolding bytewise_append skip lenp using start lenxs by simp
    then show ?thesis
      using res em split npos nle pw by simp
  qed
qed

lemma run_window_bytewise:
  assumes "extractor_invariant self" and "0 < packet_len self" and "0 < cap"
  shows "copied_of (run_window cap tags self nr w) = Some (bytewise tags self nr w)"
  using assms(1,2)
proof (induction "length w" arbitrary: self nr w rule: less_induct)
  case less
  show ?case
  proof (cases "w = []")
    case True
    then show ?thesis by (subst run_window.simps) (simp add: copied_of_def)
  next
    case False
    obtain self' r where gw: "general_work self nr tags w (replicate cap 0) = (self', r)"
      by force
    have one: "0 < consumed r" "consumed r \<le> int (length w)"
      "bytewise tags self nr (take (nat (consumed r)) w) = (self', emitted r)"
      using general_work_bytewise [OF less.prems assms(3) False gw] by simp_all
    have inv': "extractor_invariant self'" "0 < packet_len self'"
      using general_work_preserves_invariant [OF less.prems, of nr tags w "replicate cap 0"] gw
        less.prems(2) by simp_all
    let ?k = "nat (consumed r)"
    have shorter: "length (drop ?k w) < length w"
      using one(1) False by simp
    have "copied_of (run_window cap tags self' (nr + ?k) (drop ?k w)) =
                Some (bytewise tags self' (nr + ?k) (drop ?k w))"
      by (rule less.hyps [OF shorter inv'])
    then obtain s2 ds cs where
      rest: "run_window cap tags self' (nr + ?k) (drop ?k w) = Some (s2, ds, cs)"
      and brest: "bytewise tags self' (nr + ?k) (drop ?k w) = (s2, cs)"
      by (auto simp: copied_of_def)
    have lenk: "length (take ?k w) = ?k" using one(2) by simp
    have "bytewise tags self nr (take ?k w @ drop ?k w) = (s2, emitted r @ cs)"
      unfolding bytewise_append one(3) lenk using brest by simp
    then have whole: "bytewise tags self nr w = (s2, emitted r @ cs)"
      by simp
    show ?thesis
      by (subst run_window.simps)
        (use False gw one(1) rest whole in \<open>simp add: copied_of_def\<close>)
  qed
qed

lemma run_windows_bytewise:
  assumes "extractor_invariant self" and "0 < packet_len self" and "0 < cap"
  shows "copied_of (run_windows cap tags self nr ws) = Some (bytewise tags self nr (concat ws))"
  using assms(1,2)
proof (induction ws arbitrary: self nr)
  case Nil
  show ?case by (simp add: copied_of_def)
next
  case (Cons w ws)
  obtain s1 c1 where b1: "bytewise tags self nr w = (s1, c1)"
    by (cases "bytewise tags self nr w")
  obtain d1 where r1: "run_window cap tags self nr w = Some (s1, d1, c1)"
    using run_window_bytewise [OF Cons.prems assms(3), of tags nr w] b1
    by (auto simp: copied_of_def)
  have inv1: "extractor_invariant s1" "0 < packet_len s1"
    using bytewise_invariant [OF Cons.prems, of tags nr w] b1 Cons.prems(2) by simp_all
  obtain s2 c2 where b2: "bytewise tags s1 (nr + length w) (concat ws) = (s2, c2)"
    by (cases "bytewise tags s1 (nr + length w) (concat ws)")
  obtain d2 where r2: "run_windows cap tags s1 (nr + length w) ws = Some (s2, d2, c2)"
    using Cons.IH [OF inv1, of "nr + length w"] b2 by (auto simp: copied_of_def)
  show ?case
    using r1 r2 b1 b2 by (simp add: bytewise_append copied_of_def)
qed

text \<open>
  The bytes the invocations copy do not depend on the windowing: from any state that
  satisfies the invariant, with \<open>packet_len > 0\<close> and any positive output capacities, a
  partitioned delivery and the delivery of the whole stream as one window both complete,
  end in the same extractor state and copy the same bytes in the same order.
\<close>

lemma copied_bytes_same_for_every_windowing:
  assumes "extractor_invariant self" and "0 < packet_len self"
    and "0 < cap" and "0 < cap'"
  shows "copied_of (run_windows cap stream_tags self nitems_read ws) =
           copied_of (run_window cap' stream_tags self nitems_read (concat ws)) \<and>
         run_window cap' stream_tags self nitems_read (concat ws) \<noteq> None \<and>
         run_windows cap stream_tags self nitems_read ws \<noteq> None"
  using run_window_bytewise [OF assms(1,2,4), of stream_tags nitems_read "concat ws"]
    run_windows_bytewise [OF assms(1,2,3), of stream_tags nitems_read ws]
  by (auto simp: copied_of_def)

text \<open>
  C2. The claim asks that a partitioned delivery yield the same output, byte for byte, as
  the delivery of the whole stream as one window. Here seven bytes carry start tags at
  offsets 1 and 5, \<open>packet_len = 3\<close> and the output buffer holds 4 bytes. Delivered as
  windows of 2, 3 and 2 bytes, three invocations copy 1, 2 and 2 bytes and each returns 4,
  so 12 bytes go downstream; delivered as one window, two invocations copy 3 and 2 bytes
  and each returns 4, so 8 bytes go downstream. The two outputs differ, although the bytes
  copied are the same five: every invocation past the search returns the length of the
  output buffer (line 58) instead of the number of bytes it copied.
\<close>

theorem windowing_changes_delivered_bytes:
  "run_windows 4
     [\<lparr>key = start_key, offset = 1\<rparr>, \<lparr>key = start_key, offset = 5\<rparr>]
     \<lparr>packet_len = 3, state = SEARCHING, items_to_copy = 0\<rparr> 0
     [[10, 11], [12, 13, 14], [15, 16]] =
   Some (\<lparr>packet_len = 3, state = COPYING, items_to_copy = 1\<rparr>,
         [11, 0, 0, 0, 12, 13, 0, 0, 15, 16, 0, 0],
         [11, 12, 13, 15, 16]) \<and>
   run_window 4
     [\<lparr>key = start_key, offset = 1\<rparr>, \<lparr>key = start_key, offset = 5\<rparr>]
     \<lparr>packet_len = 3, state = SEARCHING, items_to_copy = 0\<rparr> 0
     (concat [[10, 11], [12, 13, 14], [15, 16]]) =
   Some (\<lparr>packet_len = 3, state = COPYING, items_to_copy = 1\<rparr>,
         [11, 12, 13, 0, 15, 16, 0, 0],
         [11, 12, 13, 15, 16]) \<and>
   run_windows 4
     [\<lparr>key = start_key, offset = 1\<rparr>, \<lparr>key = start_key, offset = 5\<rparr>]
     \<lparr>packet_len = 3, state = SEARCHING, items_to_copy = 0\<rparr> 0
     [[10, 11], [12, 13, 14], [15, 16]] \<noteq>
   run_window 4
     [\<lparr>key = start_key, offset = 1\<rparr>, \<lparr>key = start_key, offset = 5\<rparr>]
     \<lparr>packet_len = 3, state = SEARCHING, items_to_copy = 0\<rparr> 0
     (concat [[10, 11], [12, 13, 14], [15, 16]])"
  by (simp add: run_window.simps general_work_def get_tags_in_window_def finish_work_def
      copy_items_def slice_def slice_assign_def emitted_def delivered_def eval_nat_numeral)

end
